theory Spec2Isabelle
  imports Main "HOL-Library.Sublist"
begin

section \<open>Python strings\<close>

text \<open>
  A Python \<open>str\<close> is a sequence of Unicode code points. A code point is a natural
  number here, so that the line boundaries beyond Latin-1 (U+2028, U+2029) are values of
  the type. \<open>u\<close> reads an ASCII literal.
\<close>

type_synonym ustr = "nat list"

definition u :: "string \<Rightarrow> ustr" where
  "u s = map of_char s"

abbreviation NL :: nat where "NL \<equiv> 10"
abbreviation CR :: nat where "CR \<equiv> 13"
abbreviation ESC :: nat where "ESC \<equiv> 27"

text \<open>
  The line boundaries of \<open>str.splitlines\<close>: \<open>\n\<close>, \<open>\r\<close>, \<open>\v\<close>, \<open>\f\<close>,
  \<open>\x1c\<close>, \<open>\x1d\<close>, \<open>\x1e\<close>, \<open>\x85\<close>, U+2028 and U+2029 (and \<open>\r\n\<close>, which
  counts as one boundary).
\<close>

definition is_linebreak :: "nat \<Rightarrow> bool" where
  "is_linebreak c \<longleftrightarrow> c \<in> {10, 13, 11, 12, 28, 29, 30, 133, 8232, 8233}"

text \<open>
  \<open>str.splitlines(keepends)\<close>: \<open>cur\<close> is the segment read so far. A segment ends at
  a line boundary (kept when \<open>keepends\<close>); what follows the last boundary is a segment
  when it is not empty.
\<close>

fun splitlines_from :: "bool \<Rightarrow> ustr \<Rightarrow> ustr \<Rightarrow> ustr list" where
  "splitlines_from k cur [] = (if cur = [] then [] else [cur])"
| "splitlines_from k cur [c] =
     (if is_linebreak c then [cur @ (if k then [c] else [])] else [cur @ [c]])"
| "splitlines_from k cur (c # d # cs) =
     (if c = CR \<and> d = NL then (cur @ (if k then [c, d] else [])) # splitlines_from k [] cs
      else if is_linebreak c then (cur @ (if k then [c] else [])) # splitlines_from k [] (d # cs)
      else splitlines_from k (cur @ [c]) (d # cs))"

definition splitlines :: "bool \<Rightarrow> ustr \<Rightarrow> ustr list" where
  "splitlines keepends s = splitlines_from keepends [] s"

text \<open>\<open>s.rstrip("\n")\<close>, \<open>s.endswith("\n")\<close>, \<open>s.startswith("[")\<close>, \<open>s.find(c)\<close>.\<close>

definition rstrip_nl :: "ustr \<Rightarrow> ustr" where
  "rstrip_nl s = rev (dropWhile (\<lambda>c. c = NL) (rev s))"

definition endswith_nl :: "ustr \<Rightarrow> bool" where
  "endswith_nl s \<longleftrightarrow> s \<noteq> [] \<and> last s = NL"

fun find_from :: "nat \<Rightarrow> int \<Rightarrow> ustr \<Rightarrow> int" where
  "find_from c i [] = -1"
| "find_from c i (x # xs) = (if x = c then i else find_from c (i + 1) xs)"

definition find_char :: "ustr \<Rightarrow> nat \<Rightarrow> int" where
  "find_char s c = find_from c 0 s"

text \<open>
  A slice \<open>xs[i:j]\<close>: a negative index counts from the end, and both ends are clipped
  to the list.
\<close>

definition py_slice :: "'a list \<Rightarrow> int \<Rightarrow> int \<Rightarrow> 'a list" where
  "py_slice xs i j =
     (let n = int (length xs);
          a = (if i < 0 then max 0 (n + i) else min i n);
          b = (if j < 0 then max 0 (n + j) else min j n)
      in take (nat (b - a)) (drop (nat a) xs))"

text \<open>\<open>p in s\<close> on strings: \<open>p\<close> occurs in \<open>s\<close> as a contiguous run.\<close>

fun py_in :: "ustr \<Rightarrow> ustr \<Rightarrow> bool" where
  "py_in p [] = (p = [])"
| "py_in p (x # xs) = (prefix p (x # xs) \<or> py_in p xs)"

text \<open>\<open>str(n)\<close> for a non-negative integer: its decimal digits.\<close>

fun str_nat :: "nat \<Rightarrow> ustr" where
  "str_nat n = (if n < 10 then [48 + n] else str_nat (n div 10) @ [48 + n mod 10])"

declare str_nat.simps [simp del]

section \<open>The configuration module\<close>

text \<open>
  \<open>log_buffer.py\<close> imports \<open>MAX_LOG_LINES\<close>, \<open>HISTORY_CHUNK\<close>, \<open>normalize\<close> and
  \<open>strip_ansi\<close> from the module \<open>config\<close>. They are parameters of the model,
  as is \<open>LOGS_DIR\<close>. \<open>MAX_LOG_LINES\<close> is the \<open>maxlen\<close> of a deque, which cannot be negative.
  \<open>join_path\<close> stands for the operator \<open>/\<close> of pathlib, whose result depends on
  the platform.
\<close>

type_synonym path = ustr

record config =
  LOGS_DIR :: path
  join_path :: "path \<Rightarrow> ustr \<Rightarrow> path"
  MAX_LOG_LINES :: nat
  HISTORY_CHUNK :: int
  normalize :: "ustr \<Rightarrow> ustr"
  strip_ansi :: "ustr \<Rightarrow> ustr"

text \<open>
  Modelled from the spec: the body of \<open>config.normalize\<close>. The text normaliser
  converts every \<open>\r\n\<close> and every bare \<open>\r\<close> to \<open>\n\<close>.
\<close>

fun spec_normalize :: "ustr \<Rightarrow> ustr" where
  "spec_normalize [] = []"
| "spec_normalize [c] = (if c = CR then [NL] else [c])"
| "spec_normalize (c # d # cs) =
     (if c = CR \<and> d = NL then NL # spec_normalize cs
      else if c = CR then NL # spec_normalize (d # cs)
      else c # spec_normalize (d # cs))"

text \<open>
  Modelled from the spec: the body of \<open>config.strip_ansi\<close>. It removes the ANSI
  escape sequences \<open>ESC [ parameters letter\<close>; an \<open>ESC\<close> that no \<open>[\<close> follows is
  passed through, and a sequence cut short after \<open>ESC [\<close> is dropped.
\<close>

datatype ansi_state = Plain | SawEsc | InCsi

fun strip_from :: "ansi_state \<Rightarrow> ustr \<Rightarrow> ustr" where
  "strip_from Plain [] = []"
| "strip_from SawEsc [] = [ESC]"
| "strip_from InCsi [] = []"
| "strip_from Plain (c # cs) =
     (if c = ESC then strip_from SawEsc cs else c # strip_from Plain cs)"
| "strip_from SawEsc (c # cs) =
     (if c = 91 then strip_from InCsi cs
      else if c = ESC then ESC # strip_from SawEsc cs
      else ESC # c # strip_from Plain cs)"
| "strip_from InCsi (c # cs) =
     (if (48 \<le> c \<and> c \<le> 57) \<or> c = 59 \<or> c = 63 then strip_from InCsi cs
      else strip_from Plain cs)"

definition spec_strip_ansi :: "ustr \<Rightarrow> ustr" where
  "spec_strip_ansi s = strip_from Plain s"

text \<open>
  What \<open>/\<close> of pathlib gives on a POSIX system: a relative name with no empty and no
  dot component is put after a directory that is not the root, and an absolute name (it
  starts with \<open>/\<close>) replaces the directory.
\<close>

definition path_join :: "path \<Rightarrow> ustr \<Rightarrow> path" where
  "path_join d n = (if prefix (u ''/'') n then n else d @ u ''/'' @ n)"

definition spec_config :: "nat \<Rightarrow> int \<Rightarrow> config" where
  "spec_config m h =
     \<lparr>LOGS_DIR = u ''logs'', join_path = path_join, MAX_LOG_LINES = m, HISTORY_CHUNK = h,
      normalize = spec_normalize, strip_ansi = spec_strip_ansi\<rparr>"

section \<open>The asynchronous file writer\<close>

text \<open>
  Exceptions are values. \<open>queue.Queue(maxsize)\<close> is a list of jobs with its
  bound; a bound that is not positive means no bound, as in the library. The calls of
  \<open>write\<close> and the turns of the worker thread are taken one at a time.
\<close>

datatype exn = Full | Empty | OSError

record writer =
  queue :: "(path \<times> ustr) list"
  maxsize :: int
  dropped :: nat
  stop :: bool

definition new_writer :: "int \<Rightarrow> writer" where
  "new_writer max_queue = \<lparr>queue = [], maxsize = max_queue, dropped = 0, stop = False\<rparr>"

definition full :: "writer \<Rightarrow> bool" where
  "full w \<longleftrightarrow> 0 < maxsize w \<and> maxsize w \<le> int (length (queue w))"

definition put_nowait :: "writer \<Rightarrow> path \<times> ustr \<Rightarrow> exn + writer" where
  "put_nowait w job = (if full w then Inl Full else Inr (w\<lparr>queue := queue w @ [job]\<rparr>))"

text \<open>\<open>_AsyncFileWriter.write\<close>: only \<open>queue.Full\<close> is caught.\<close>

definition writer_write :: "writer \<Rightarrow> path \<Rightarrow> ustr \<Rightarrow> exn + writer" where
  "writer_write w p text =
     (if text = [] then Inr w
      else case put_nowait w (p, text) of
             Inr w' \<Rightarrow> Inr w'
           | Inl Full \<Rightarrow> Inr (w\<lparr>dropped := dropped w + 1\<rparr>)
           | Inl e \<Rightarrow> Inl e)"

text \<open>
  The files on disk: a path has a content or does not exist; directories are not kept.
  Opening in mode \<open>"a"\<close> creates the file. An attempt to append to a file ends in one
  of three ways: \<open>mkdir\<close> or \<open>open\<close> raises and the files are as before; \<open>open\<close>
  succeeds, so the file exists, and the write raises after \<open>n\<close> characters of the text
  have reached the file; or all of the text is written.
\<close>

type_synonym fs = "path \<Rightarrow> ustr option"

datatype io_result = CannotOpen | Broken nat | Done

definition content :: "fs \<Rightarrow> path \<Rightarrow> ustr" where
  "content files p = (case files p of None \<Rightarrow> [] | Some old \<Rightarrow> old)"

definition append_file :: "fs \<Rightarrow> path \<Rightarrow> ustr \<Rightarrow> fs" where
  "append_file files p text = files(p \<mapsto> content files p @ text)"

fun try_append :: "io_result \<Rightarrow> fs \<Rightarrow> path \<Rightarrow> ustr \<Rightarrow> fs" where
  "try_append CannotOpen files p text = files"
| "try_append (Broken n) files p text = append_file files p (take n text)"
| "try_append Done files p text = append_file files p text"

definition drop_note :: "nat \<Rightarrow> ustr" where
  "drop_note n =
     u ''[log-writer] dropped '' @ str_nat n @ u '' chunks due to backpressure'' @ [NL]"

text \<open>
  The body of the loop of \<open>_AsyncFileWriter._run\<close> for one job taken from the queue.
  \<open>r1\<close> is how \<open>mkdir\<close>, \<open>open\<close> and \<open>write\<close> of the job end, \<open>r2\<close> how the
  second \<open>open\<close> and \<open>write\<close> (of the note about dropped chunks) end. The counter is
  looked at only after the job is written in full, and it is reset before the note is
  written.
\<close>

fun run_job ::
  "io_result \<Rightarrow> io_result \<Rightarrow> writer \<times> fs \<Rightarrow> path \<times> ustr \<Rightarrow> writer \<times> fs" where
  "run_job r1 r2 (w, files) (p, text) =
     (let files1 = try_append r1 files p text in
      if r1 \<noteq> Done then (w, files1)
      else if dropped w \<noteq> 0
        then (w\<lparr>dropped := 0\<rparr>, try_append r2 files1 p (drop_note (dropped w)))
        else (w, files1))"

text \<open>One turn of the loop: \<open>get\<close> on an empty queue times out and the loop goes on.\<close>

fun run_step :: "io_result \<Rightarrow> io_result \<Rightarrow> writer \<times> fs \<Rightarrow> writer \<times> fs" where
  "run_step r1 r2 (w, files) =
     (case queue w of
        [] \<Rightarrow> (w, files)
      | job # rest \<Rightarrow> run_job r1 r2 (w\<lparr>queue := rest\<rparr>, files) job)"

text \<open>\<open>_writer()\<close>: the writer of the process, created at its first use.\<close>

definition the_writer :: "writer option \<Rightarrow> writer" where
  "the_writer g = (case g of None \<Rightarrow> new_writer 10000 | Some w \<Rightarrow> w)"

section \<open>The log buffer\<close>

text \<open>The fields of \<open>LogBuffer\<close>; \<open>logfile\<close> is the field \<open>file\<close>.\<close>

record log_buffer =
  name :: ustr
  lines :: "ustr list"
  logfile :: path
  cache :: "ustr list option"
  mtime :: int
  partial :: ustr

text \<open>
  \<open>LogBuffer.__init__\<close>; \<open>mkdir_ok\<close> says whether \<open>LOGS_DIR.mkdir\<close> succeeds.
  The modification time of a file is a number of clock ticks.
\<close>

definition LogBuffer :: "config \<Rightarrow> bool \<Rightarrow> ustr \<Rightarrow> exn + log_buffer" where
  "LogBuffer cfg mkdir_ok nm =
     (if \<not> mkdir_ok then Inl OSError
      else Inr \<lparr>name = nm, lines = [], logfile = join_path cfg (LOGS_DIR cfg) (nm @ u ''.log''),
                cache = None, mtime = 0, partial = []\<rparr>)"

text \<open>\<open>deque(maxlen=n).append(x)\<close>: the oldest entries leave when the bound is passed.\<close>

definition deque_append :: "nat \<Rightarrow> 'a list \<Rightarrow> 'a \<Rightarrow> 'a list" where
  "deque_append n xs x = drop (length (xs @ [x]) - n) (xs @ [x])"

definition disp_line :: "ustr \<Rightarrow> ustr \<Rightarrow> ustr" where
  "disp_line ts c = u ''['' @ [ESC] @ u ''[94m'' @ ts @ [ESC] @ u ''[0m] '' @ c @ [NL]"

definition file_line :: "config \<Rightarrow> ustr \<Rightarrow> ustr \<Rightarrow> ustr" where
  "file_line cfg ts c = u ''['' @ ts @ u ''] '' @ strip_ansi cfg c @ [NL]"

text \<open>The loop of \<open>append\<close> over the complete parts: the ring, \<open>display\<close>, \<open>file_out\<close>.\<close>

fun append_loop ::
  "config \<Rightarrow> ustr \<Rightarrow> ustr list \<Rightarrow> ustr list \<times> ustr list \<times> ustr list \<Rightarrow>
   ustr list \<times> ustr list \<times> ustr list" where
  "append_loop cfg ts [] acc = acc"
| "append_loop cfg ts (part # parts) (ring, display, file_out) =
     (let c = rstrip_nl part; disp = disp_line ts c
      in append_loop cfg ts parts
           (deque_append (MAX_LOG_LINES cfg) ring disp, display @ [disp],
            file_out @ [file_line cfg ts c]))"

text \<open>
  The parts of \<open>data\<close> that \<open>append\<close> treats as complete lines, and the fragment it
  keeps: the last part is kept back when it does not end with \<open>\n\<close>.
\<close>

definition complete_parts :: "ustr \<Rightarrow> ustr list \<times> ustr" where
  "complete_parts data =
     (let parts = splitlines True data
      in if parts \<noteq> [] \<and> \<not> endswith_nl (last parts) then (butlast parts, last parts)
         else (parts, []))"

text \<open>
  \<open>LogBuffer.append\<close>. \<open>ts\<close> is the formatted time of the call, \<open>g\<close> the writer of
  the process. The result is the pair returned and the state after the call.
\<close>

definition append ::
  "config \<Rightarrow> ustr \<Rightarrow> log_buffer \<times> writer option \<Rightarrow> ustr \<Rightarrow>
   (ustr \<times> ustr) \<times> (log_buffer \<times> writer option)" where
  "append cfg ts s text =
     (let b = fst s; g = snd s in
      if text = [] then (([], []), (b, g))
      else
        let data = partial b @ normalize cfg text in
        if NL \<notin> set data then (([], []), (b\<lparr>partial := data\<rparr>, g))
        else
          let (parts, rest) = complete_parts data;
              (ring, display, file_out) = append_loop cfg ts parts (lines b, [], []);
              b' = b\<lparr>partial := rest, lines := ring, cache := None\<rparr>;
              w = the_writer g;
              g' = (case writer_write w (logfile b') (concat file_out) of
                      Inr w' \<Rightarrow> Some w' | Inl e \<Rightarrow> Some w)
          in ((concat display, concat file_out), (b', g')))"

definition get_recent :: "log_buffer \<Rightarrow> ustr" where
  "get_recent b = concat (lines b)"

text \<open>
  What the file system answers when \<open>_read_file\<close> looks at the backing file:
  \<open>exists()\<close> itself raises (pathlib lets through the errors that do not mean a
  missing path, such as a directory that may not be searched), or it says no, or it says
  yes and \<open>stat\<close> and \<open>read_text\<close> each give a value or raise (\<open>None\<close>).
\<close>

datatype file_obs = ExistsRaises | Absent | Present "int option" "ustr option"

definition ring_lines :: "log_buffer \<Rightarrow> ustr list" where
  "ring_lines b = map rstrip_nl (lines b)"

definition read_fresh ::
  "config \<Rightarrow> log_buffer \<Rightarrow> int \<Rightarrow> ustr option \<Rightarrow> ustr list \<times> log_buffer" where
  "read_fresh cfg b m rd =
     (case rd of
        None \<Rightarrow> (ring_lines b, b)
      | Some text \<Rightarrow>
          (let c = splitlines False (normalize cfg text)
           in (c, b\<lparr>cache := Some c, mtime := m\<rparr>)))"

text \<open>
  \<open>LogBuffer._read_file\<close>. The call of \<open>exists()\<close> stands before the \<open>try\<close>, so
  what it raises reaches the caller; every exception of \<open>stat\<close> and \<open>read_text\<close> is
  caught. The cache is used when it is a non-empty list (an empty list is false in
  Python) and the modification time is the one it was read at.
\<close>

fun read_file :: "config \<Rightarrow> log_buffer \<Rightarrow> file_obs \<Rightarrow> exn + ustr list \<times> log_buffer" where
  "read_file cfg b ExistsRaises = Inl OSError"
| "read_file cfg b Absent = Inr (ring_lines b, b)"
| "read_file cfg b (Present None rd) = Inr (ring_lines b, b)"
| "read_file cfg b (Present (Some m) rd) =
     (case cache b of
        Some c \<Rightarrow> if c \<noteq> [] \<and> m = mtime b then Inr (c, b) else Inr (read_fresh cfg b m rd)
      | None \<Rightarrow> Inr (read_fresh cfg b m rd))"

text \<open>\<open>LogBuffer.line_count\<close>: an exception of \<open>_read_file\<close> is not caught.\<close>

definition line_count :: "config \<Rightarrow> log_buffer \<Rightarrow> file_obs \<Rightarrow> exn + nat \<times> log_buffer" where
  "line_count cfg b obs =
     (case read_file cfg b obs of
        Inl e \<Rightarrow> Inl e
      | Inr (ls, b') \<Rightarrow> Inr (length ls, b'))"

definition colorize :: "ustr \<Rightarrow> ustr" where
  "colorize line =
     (if prefix (u ''['') line
      then (let b = find_char line 93
            in if b > 0
               then u ''['' @ [ESC] @ u ''[94m'' @ py_slice line 1 b @ [ESC] @ u ''[0m]''
                    @ py_slice line (b + 1) (int (length line))
               else line)
      else line)"

definition render :: "ustr list \<Rightarrow> ustr" where
  "render ls = concat (map (\<lambda>l. colorize l @ [NL]) ls)"

text \<open>
  \<open>LogBuffer.search\<close>. \<open>lower\<close> stands for \<open>str.lower\<close>, the lowercasing of
  Unicode text.
\<close>

definition search_lines :: "(ustr \<Rightarrow> ustr) \<Rightarrow> ustr list \<Rightarrow> ustr \<Rightarrow> ustr \<times> nat" where
  "search_lines lower ls pattern =
     (let p = lower pattern;
          matches = filter (\<lambda>l. py_in p (lower l)) ls
      in if matches = [] then ([], 0) else (render matches, length matches))"

definition search ::
  "(ustr \<Rightarrow> ustr) \<Rightarrow> config \<Rightarrow> log_buffer \<Rightarrow> file_obs \<Rightarrow> ustr \<Rightarrow>
   exn + (ustr \<times> nat) \<times> log_buffer" where
  "search lower cfg b obs pattern =
     (case read_file cfg b obs of
        Inl e \<Rightarrow> Inl e
      | Inr (ls, b') \<Rightarrow> Inr (search_lines lower ls pattern, b'))"

text \<open>
  \<open>str.lower\<close> on text made of ASCII characters, the Greek letters U+0391 to U+03A9
  and U+03B1 to U+03C9, and the Kelvin sign U+212A; other code points are outside what
  this definition describes. A capital letter goes to its small letter and the Kelvin
  sign to \<open>k\<close>. A capital sigma (U+03A3) goes to the final small sigma (U+03C2) when a
  cased letter stands before it and none after it, characters that case ignores
  (\<open>'\<close>, \<open>.\<close>, \<open>:\<close>, \<open>^\<close> and the grave accent, among those of this text) being skipped on
  both sides; otherwise it goes to U+03C3. \<open>before\<close> is the text read so far, the
  nearest character first.
\<close>

definition cased :: "nat \<Rightarrow> bool" where
  "cased c \<longleftrightarrow>
     (65 \<le> c \<and> c \<le> 90) \<or> (97 \<le> c \<and> c \<le> 122) \<or> (913 \<le> c \<and> c \<le> 929) \<or>
     (931 \<le> c \<and> c \<le> 937) \<or> (945 \<le> c \<and> c \<le> 969) \<or> c = 8490"

definition case_ignorable :: "nat \<Rightarrow> bool" where
  "case_ignorable c \<longleftrightarrow> c \<in> {39, 46, 58, 94, 96}"

definition lower_char :: "nat \<Rightarrow> nat" where
  "lower_char c =
     (if (65 \<le> c \<and> c \<le> 90) \<or> (913 \<le> c \<and> c \<le> 929) \<or> (931 \<le> c \<and> c \<le> 937) then c + 32
      else if c = 8490 then 107
      else c)"

definition final_sigma :: "ustr \<Rightarrow> ustr \<Rightarrow> bool" where
  "final_sigma before after \<longleftrightarrow>
     (case dropWhile case_ignorable before of [] \<Rightarrow> False | c # rest \<Rightarrow> cased c) \<and>
     (case dropWhile case_ignorable after of [] \<Rightarrow> True | c # rest \<Rightarrow> \<not> cased c)"

fun lower_from :: "ustr \<Rightarrow> ustr \<Rightarrow> ustr" where
  "lower_from before [] = []"
| "lower_from before (c # cs) =
     (if c = 931 \<and> final_sigma before cs then 962 else lower_char c)
     # lower_from (c # before) cs"

definition py_lower :: "ustr \<Rightarrow> ustr" where
  "py_lower s = lower_from [] s"

text \<open>\<open>str.isascii\<close>: every code point is below 128.\<close>

definition is_ascii :: "ustr \<Rightarrow> bool" where
  "is_ascii s \<longleftrightarrow> (\<forall>c\<in>set s. c < 128)"

text \<open>\<open>LogBuffer.load_chunk\<close>, from the list of lines on.\<close>

definition load_chunk_lines :: "ustr list \<Rightarrow> int \<Rightarrow> int \<Rightarrow> ustr \<times> int" where
  "load_chunk_lines ls end' size' =
     (if ls = [] \<or> end' \<le> 0 then ([], 0)
      else let start = max 0 (end' - size');
               chunk = py_slice ls start end'
           in if chunk = [] then ([], 0) else (render chunk, start))"

definition load_chunk ::
  "config \<Rightarrow> log_buffer \<Rightarrow> file_obs \<Rightarrow> int \<Rightarrow> int \<Rightarrow> exn + (ustr \<times> int) \<times> log_buffer" where
  "load_chunk cfg b obs end' size' =
     (case read_file cfg b obs of
        Inl e \<Rightarrow> Inl e
      | Inr (ls, b') \<Rightarrow> Inr (load_chunk_lines ls end' size', b'))"

text \<open>
  \<open>LogBuffer.clear\<close>; \<open>ok\<close> says whether \<open>write_text\<close> succeeds. The fragment
  \<open>_partial\<close> is not assigned.
\<close>

definition clear :: "bool \<Rightarrow> log_buffer \<times> fs \<Rightarrow> log_buffer \<times> fs" where
  "clear ok s =
     (let b = (fst s)\<lparr>lines := [], cache := None\<rparr>
      in (b, if ok then (snd s)(logfile b \<mapsto> []) else snd s))"


section \<open>Runs of the system\<close>

text \<open>
  The operations on one buffer, with what the environment answers to each: the time of
  an \<open>append\<close>, the state of the backing file at a read, the outcome of the
  truncation in \<open>clear\<close>, and a turn of the writer thread with the outcomes of its two
  writes. A state is the buffer, the writer of the process and the files. A read that
  raises leaves the state as it was.
\<close>

datatype op =
    Append ustr ustr
  | GetRecent
  | LineCount file_obs
  | Search file_obs ustr
  | LoadChunk file_obs int int
  | Clear bool
  | Worker io_result io_result

fun step ::
  "(ustr \<Rightarrow> ustr) \<Rightarrow> config \<Rightarrow> log_buffer \<times> writer option \<times> fs \<Rightarrow> op \<Rightarrow>
   log_buffer \<times> writer option \<times> fs" where
  "step lower cfg (b, g, files) (Append ts text) =
     (fst (snd (append cfg ts (b, g) text)), snd (snd (append cfg ts (b, g) text)), files)"
| "step lower cfg (b, g, files) GetRecent = (b, g, files)"
| "step lower cfg (b, g, files) (LineCount obs) =
     (case line_count cfg b obs of Inl e \<Rightarrow> (b, g, files) | Inr r \<Rightarrow> (snd r, g, files))"
| "step lower cfg (b, g, files) (Search obs pattern) =
     (case search lower cfg b obs pattern of
        Inl e \<Rightarrow> (b, g, files) | Inr r \<Rightarrow> (snd r, g, files))"
| "step lower cfg (b, g, files) (LoadChunk obs end' size') =
     (case load_chunk cfg b obs end' size' of
        Inl e \<Rightarrow> (b, g, files) | Inr r \<Rightarrow> (snd r, g, files))"
| "step lower cfg (b, g, files) (Clear ok) =
     (fst (clear ok (b, files)), g, snd (clear ok (b, files)))"
| "step lower cfg (b, g, files) (Worker r1 r2) =
     (case g of
        None \<Rightarrow> (b, g, files)
      | Some w \<Rightarrow> (b, Some (fst (run_step r1 r2 (w, files))),
                   snd (run_step r1 r2 (w, files))))"

definition run ::
  "(ustr \<Rightarrow> ustr) \<Rightarrow> config \<Rightarrow> log_buffer \<times> writer option \<times> fs \<Rightarrow> op list \<Rightarrow>
   log_buffer \<times> writer option \<times> fs" where
  "run lower cfg s ops = foldl (step lower cfg) s ops"

text \<open>
  The contents of the lines that one call of \<open>append\<close> renders (\<open>content\<close> in its
  loop), in order.
\<close>

definition line_contents :: "config \<Rightarrow> log_buffer \<Rightarrow> ustr \<Rightarrow> ustr list" where
  "line_contents cfg b text =
     (if text = [] then []
      else let data = partial b @ normalize cfg text
           in if NL \<notin> set data then [] else map rstrip_nl (fst (complete_parts data)))"

text \<open>
  A series of calls of \<open>append\<close>, each with its time and its text: the entries put
  into the ring (\<open>appends\<close>), the contents of the lines (\<open>appends_contents\<close>), and the
  state at the end (\<open>appends_state\<close>).
\<close>

fun appends_state ::
  "config \<Rightarrow> log_buffer \<times> writer option \<Rightarrow> (ustr \<times> ustr) list \<Rightarrow> log_buffer \<times> writer option" where
  "appends_state cfg s [] = s"
| "appends_state cfg s ((ts, text) # calls) =
     appends_state cfg (snd (append cfg ts s text)) calls"

fun appends ::
  "config \<Rightarrow> log_buffer \<times> writer option \<Rightarrow> (ustr \<times> ustr) list \<Rightarrow> ustr list" where
  "appends cfg s [] = []"
| "appends cfg s ((ts, text) # calls) =
     map (disp_line ts) (line_contents cfg (fst s) text)
     @ appends cfg (snd (append cfg ts s text)) calls"

fun appends_contents ::
  "config \<Rightarrow> log_buffer \<times> writer option \<Rightarrow> (ustr \<times> ustr) list \<Rightarrow> ustr list" where
  "appends_contents cfg s [] = []"
| "appends_contents cfg s ((ts, text) # calls) =
     line_contents cfg (fst s) text
     @ appends_contents cfg (snd (append cfg ts s text)) calls"

text \<open>
  Splitting a text on \<open>\n\<close> alone: the lines that a \<open>\n\<close> ends, without it, and
  what follows the last \<open>\n\<close>.
\<close>

fun split_nl :: "ustr \<Rightarrow> ustr \<Rightarrow> ustr list \<times> ustr" where
  "split_nl cur [] = ([], cur)"
| "split_nl cur (c # cs) =
     (if c = NL then (cur # fst (split_nl [] cs), snd (split_nl [] cs))
      else split_nl (cur @ [c]) cs)"


text \<open>The buffer that \<open>LogBuffer("bot")\<close> makes, and a writer whose queue of one is full.\<close>

definition bot_buffer :: log_buffer where
  "bot_buffer =
     \<lparr>name = u ''bot'', lines = [], logfile = u ''logs/bot.log'', cache = None, mtime = 0,
      partial = []\<rparr>"

definition busy_writer :: writer where
  "busy_writer =
     \<lparr>queue = [(u ''logs/b.log'', u ''b'' @ [NL])], maxsize = 1, dropped = 0, stop = False\<rparr>"

section \<open>Facts about the library functions and the loop\<close>

lemma py_in_sublist: "py_in p s \<longleftrightarrow> sublist p s"
  by (induction s) (simp_all add: sublist_Cons_right)

lemma deque_append_length: "length (deque_append n xs x) \<le> n"
  by (simp add: deque_append_def)

lemma deque_append_lastn:
  "deque_append n (drop (length xs - n) xs) x = drop (length (xs @ [x]) - n) (xs @ [x])"
  by (cases "length xs \<le> n") (simp_all add: deque_append_def Suc_diff_le)

lemma append_loop_ring:
  "fst (append_loop cfg ts parts (drop (length xs - MAX_LOG_LINES cfg) xs, d, f)) =
   drop (length (xs @ map (\<lambda>p. disp_line ts (rstrip_nl p)) parts) - MAX_LOG_LINES cfg)
        (xs @ map (\<lambda>p. disp_line ts (rstrip_nl p)) parts)"
proof (induction parts arbitrary: xs d f)
  case Nil
  then show ?case by simp
next
  case (Cons p ps)
  show ?case
    using Cons.IH [of "xs @ [disp_line ts (rstrip_nl p)]"]
    by (simp add: Let_def deque_append_lastn)
qed

lemma append_loop_display:
  "fst (snd (append_loop cfg ts parts (r, d, f))) = d @ map (\<lambda>p. disp_line ts (rstrip_nl p)) parts"
  by (induction parts arbitrary: r d f) (simp_all add: Let_def)

lemma append_loop_file_out:
  "snd (snd (append_loop cfg ts parts (r, d, f))) = f @ map (\<lambda>p. file_line cfg ts (rstrip_nl p)) parts"
  by (induction parts arbitrary: r d f) (simp_all add: Let_def)

lemma splitlines_from_nl:
  "NL \<notin> set cur \<Longrightarrow> p \<in> set (splitlines_from True cur s) \<Longrightarrow> NL \<notin> set (butlast p)"
proof (induction True cur s rule: splitlines_from.induct)
  case (1 cur)
  then show ?case by (auto split: if_splits dest: in_set_butlastD)
next
  case (2 cur c)
  then show ?case by (auto split: if_splits)
next
  case (3 cur c d cs)
  then show ?case by (auto split: if_splits simp: butlast_append is_linebreak_def)
qed

lemma complete_parts_rest: "NL \<notin> set (snd (complete_parts data))"
proof (cases "splitlines True data \<noteq> [] \<and> \<not> endswith_nl (last (splitlines True data))")
  case True
  let ?p = "last (splitlines True data)"
  have "?p \<in> set (splitlines_from True [] data)" using True by (simp add: splitlines_def)
  then have "NL \<notin> set (butlast ?p)" by (rule splitlines_from_nl [rotated]) simp
  moreover have "?p = [] \<or> last ?p \<noteq> NL" using True by (auto simp: endswith_nl_def)
  ultimately have "NL \<notin> set ?p"
    by (cases ?p rule: rev_cases) auto
  then show ?thesis using True by (simp add: complete_parts_def Let_def)
next
  case False
  then show ?thesis by (auto simp add: complete_parts_def Let_def)
qed

lemma read_file_keeps:
  "read_file cfg b obs = Inr (ls, b') \<Longrightarrow> lines b' = lines b \<and> partial b' = partial b"
  by (cases "(cfg, b, obs)" rule: read_file.cases)
     (auto simp: read_fresh_def Let_def split: option.splits if_splits)

lemma lastn_append:
  "drop (length (drop (length xs - n) xs @ ys) - n) (drop (length xs - n) xs @ ys) =
   drop (length (xs @ ys) - n) (xs @ ys)"
  by (cases "length xs \<le> n") (auto simp: drop_append ac_simps)

lemma append_lines:
  assumes "length (lines (fst s)) \<le> MAX_LOG_LINES cfg"
  shows "lines (fst (snd (append cfg ts s text))) =
         drop (length (lines (fst s) @ map (disp_line ts) (line_contents cfg (fst s) text))
                 - MAX_LOG_LINES cfg)
              (lines (fst s) @ map (disp_line ts) (line_contents cfg (fst s) text))"
proof -
  have r: "drop (length (lines (fst s)) - MAX_LOG_LINES cfg) (lines (fst s)) = lines (fst s)"
    using assms by simp
  show ?thesis
  proof (cases "text = [] \<or> NL \<notin> set (partial (fst s) @ normalize cfg text)")
    case True
    then show ?thesis using assms by (auto simp: append_def line_contents_def Let_def)
  next
    case False
    let ?parts = "fst (complete_parts (partial (fst s) @ normalize cfg text))"
    have "lines (fst (snd (append cfg ts s text))) =
            fst (append_loop cfg ts ?parts (lines (fst s), [], []))"
      using False by (auto simp add: append_def Let_def case_prod_beta)
    also have "\<dots> = fst (append_loop cfg ts ?parts
            (drop (length (lines (fst s)) - MAX_LOG_LINES cfg) (lines (fst s)), [], []))"
      by (simp only: r)
    also have "\<dots> =
        drop (length (lines (fst s) @ map (\<lambda>p. disp_line ts (rstrip_nl p)) ?parts)
                - MAX_LOG_LINES cfg)
             (lines (fst s) @ map (\<lambda>p. disp_line ts (rstrip_nl p)) ?parts)"
      by (rule append_loop_ring)
    also have "map (\<lambda>p. disp_line ts (rstrip_nl p)) ?parts =
        map (disp_line ts) (line_contents cfg (fst s) text)"
      using False by (simp add: line_contents_def Let_def comp_def)
    finally show ?thesis .
  qed
qed

lemma append_lines_bound:
  "length (lines (fst s)) \<le> MAX_LOG_LINES cfg \<Longrightarrow>
   length (lines (fst (snd (append cfg ts s text)))) \<le> MAX_LOG_LINES cfg"
  by (simp add: append_lines)

lemma append_partial_nl:
  "NL \<notin> set (partial (fst s)) \<Longrightarrow> NL \<notin> set (partial (fst (snd (append cfg ts s text))))"
  using complete_parts_rest [of "partial (fst s) @ normalize cfg text"]
  by (auto simp: append_def Let_def case_prod_beta)

lemma append_display:
  "fst (fst (append cfg ts s text)) = concat (map (disp_line ts) (line_contents cfg (fst s) text))"
  by (simp add: append_def line_contents_def Let_def case_prod_beta append_loop_display comp_def)

lemma append_file_text:
  "snd (fst (append cfg ts s text)) = concat (map (file_line cfg ts) (line_contents cfg (fst s) text))"
  by (simp add: append_def line_contents_def Let_def case_prod_beta append_loop_file_out comp_def)

lemma appends_lines:
  "length (lines (fst s)) \<le> MAX_LOG_LINES cfg \<Longrightarrow>
   lines (fst (appends_state cfg s calls)) =
     drop (length (lines (fst s) @ appends cfg s calls) - MAX_LOG_LINES cfg)
          (lines (fst s) @ appends cfg s calls)"
proof (induction calls arbitrary: s)
  case Nil
  then show ?case by simp
next
  case (Cons c calls)
  obtain ts t where c: "c = (ts, t)" by (cases c)
  let ?s = "snd (append cfg ts s t)"
  let ?e = "map (disp_line ts) (line_contents cfg (fst s) t)"
  have b: "length (lines (fst ?s)) \<le> MAX_LOG_LINES cfg"
    using Cons.prems by (rule append_lines_bound)
  have "lines (fst (appends_state cfg ?s calls)) =
          drop (length (lines (fst ?s) @ appends cfg ?s calls) - MAX_LOG_LINES cfg)
               (lines (fst ?s) @ appends cfg ?s calls)"
    using b by (rule Cons.IH)
  also have "lines (fst ?s) =
          drop (length (lines (fst s) @ ?e) - MAX_LOG_LINES cfg) (lines (fst s) @ ?e)"
    using Cons.prems by (rule append_lines)
  finally show ?case
    using lastn_append [of "lines (fst s) @ ?e" "MAX_LOG_LINES cfg" "appends cfg ?s calls"]
    by (simp add: c)
qed

lemma read_ops_keep:
  "line_count cfg b obs = Inr r1 \<Longrightarrow> lines (snd r1) = lines b \<and> partial (snd r1) = partial b"
  "search lower cfg b obs pat = Inr r2 \<Longrightarrow> lines (snd r2) = lines b \<and> partial (snd r2) = partial b"
  "load_chunk cfg b obs e sz = Inr r3 \<Longrightarrow> lines (snd r3) = lines b \<and> partial (snd r3) = partial b"
  by (auto simp: line_count_def search_def load_chunk_def split: sum.splits prod.splits
           dest: read_file_keeps)

lemma step_keeps_or_appends:
  "(\<exists>ts t g. fst (step lower cfg s x) = fst (snd (append cfg ts (fst s, g) t))) \<or>
   (lines (fst (step lower cfg s x)) = lines (fst s) \<and>
    partial (fst (step lower cfg s x)) = partial (fst s)) \<or>
   (lines (fst (step lower cfg s x)) = [] \<and>
    partial (fst (step lower cfg s x)) = partial (fst s))"
proof (cases "(lower, cfg, s, x)" rule: step.cases)
  case (1 lower' cfg' b g files ts t)
  then show ?thesis by auto
next
  case (2 lower' cfg' b g files)
  then show ?thesis by simp
next
  case (3 lower' cfg' b g files obs)
  then show ?thesis by (auto split: sum.splits dest: read_ops_keep)
next
  case (4 lower' cfg' b g files obs pat)
  then show ?thesis by (auto split: sum.splits dest: read_ops_keep)
next
  case (5 lower' cfg' b g files obs e sz)
  then show ?thesis by (auto split: sum.splits dest: read_ops_keep)
next
  case (6 lower' cfg' b g files ok)
  then show ?thesis by (simp add: clear_def Let_def)
next
  case (7 lower' cfg' b g files r1 r2)
  then show ?thesis by (simp split: option.splits)
qed

lemma step_bound:
  assumes "length (lines (fst s)) \<le> MAX_LOG_LINES cfg"
  shows "length (lines (fst (step lower cfg s x))) \<le> MAX_LOG_LINES cfg"
  using step_keeps_or_appends [of lower cfg s x] assms
    append_lines_bound [of "(fst s, g)" cfg for g]
  by (auto simp del: step.simps)

lemma step_partial:
  assumes "NL \<notin> set (partial (fst s))"
  shows "NL \<notin> set (partial (fst (step lower cfg s x)))"
  using step_keeps_or_appends [of lower cfg s x] assms
    append_partial_nl [of "(fst s, g)" cfg for g]
  by (auto simp del: step.simps)

lemma run_bound:
  "length (lines (fst s)) \<le> MAX_LOG_LINES cfg \<Longrightarrow>
   length (lines (fst (run lower cfg s ops))) \<le> MAX_LOG_LINES cfg"
  unfolding run_def by (induction ops arbitrary: s) (simp_all add: step_bound)

lemma run_partial:
  "NL \<notin> set (partial (fst s)) \<Longrightarrow> NL \<notin> set (partial (fst (run lower cfg s ops)))"
  unfolding run_def by (induction ops arbitrary: s) (simp_all add: step_partial)

lemma take_drop_nth:
  "j \<le> length xs \<Longrightarrow> take (j - i) (drop i xs) = map (\<lambda>k. xs ! k) [i ..< j]"
  by (rule nth_equalityI) (auto simp: ac_simps)

lemma map_upt_not_Nil: "i < j \<Longrightarrow> map f [i ..< j] \<noteq> []"
  by simp

lemma py_slice_nth:
  assumes "0 \<le> a" "0 < e"
  shows "py_slice ls a e = map (\<lambda>i. ls ! i) [nat a ..< nat (min e (int (length ls)))]"
proof -
  let ?n = "nat (min e (int (length ls)))"
  have "py_slice ls a e = take (?n - nat a) (drop (nat a) ls)"
  proof (cases "a \<le> int (length ls)")
    case True
    then show ?thesis
      using assms by (simp add: py_slice_def Let_def min_absorb1 nat_diff_distrib')
  next
    case False
    then show ?thesis
      using assms by (simp add: py_slice_def Let_def)
  qed
  also have "\<dots> = map (\<lambda>i. ls ! i) [nat a ..< ?n]"
    by (rule take_drop_nth) simp
  finally show ?thesis .
qed

lemma load_chunk_lines_inside:
  assumes "0 < e" "0 < sz" "max 0 (e - sz) < int (length ls)"
  shows "load_chunk_lines ls e sz =
    (render (map (\<lambda>i. ls ! i) [nat (max 0 (e - sz)) ..< nat (min e (int (length ls)))]),
     max 0 (e - sz))"
proof -
  have ne: "ls \<noteq> []" using assms by auto
  have sl: "py_slice ls (max 0 (e - sz)) e =
      map (\<lambda>i. ls ! i) [nat (max 0 (e - sz)) ..< nat (min e (int (length ls)))]"
    using assms by (intro py_slice_nth) simp_all
  have lt: "nat (max 0 (e - sz)) < nat (min e (int (length ls)))"
    using assms by auto
  have ch: "py_slice ls (max 0 (e - sz)) e \<noteq> []"
    unfolding sl using lt by (rule map_upt_not_Nil)
  have "load_chunk_lines ls e sz =
      (if py_slice ls (max 0 (e - sz)) e = [] then ([], 0)
       else (render (py_slice ls (max 0 (e - sz)) e), max 0 (e - sz)))"
    using ne assms(1) by (simp add: load_chunk_lines_def Let_def)
  also have "\<dots> = (render (py_slice ls (max 0 (e - sz)) e), max 0 (e - sz))"
    using ch by (simp only: if_False)
  finally show ?thesis by (simp only: sl)
qed

lemma load_chunk_lines_outside:
  assumes "int (length ls) \<le> max 0 (e - sz)"
  shows "load_chunk_lines ls e sz = ([], 0)"
proof (cases "ls = [] \<or> e \<le> 0")
  case True
  then show ?thesis by (simp add: load_chunk_lines_def)
next
  case False
  then have "py_slice ls (max 0 (e - sz)) e = []"
    using assms by (auto simp: py_slice_def Let_def)
  then show ?thesis by (simp add: load_chunk_lines_def Let_def)
qed

lemma split_nl_no_nl: "NL \<notin> set s \<Longrightarrow> split_nl cur s = ([], cur @ s)"
  by (induction s arbitrary: cur) auto

lemma split_nl_rest_set: "set (snd (split_nl cur s)) \<subseteq> set cur \<union> set s"
proof (induction s arbitrary: cur)
  case Nil
  then show ?case by simp
next
  case (Cons a s)
  show ?case using Cons.IH [of "[]"] Cons.IH [of "cur @ [a]"] by auto
qed

lemma split_nl_rest_nl: "NL \<notin> set cur \<Longrightarrow> NL \<notin> set (snd (split_nl cur s))"
  by (induction s arbitrary: cur) auto

lemma split_nl_lines_nl:
  "NL \<notin> set cur \<Longrightarrow> l \<in> set (fst (split_nl cur s)) \<Longrightarrow> NL \<notin> set l"
proof (induction s arbitrary: cur)
  case Nil
  then show ?case by simp
next
  case (Cons a s)
  show ?case
    using Cons.prems Cons.IH [of "[]"] Cons.IH [of "cur @ [a]"] by (auto split: if_splits)
qed

lemma split_nl_append:
  "split_nl cur (s @ t) =
     (fst (split_nl cur s) @ fst (split_nl (snd (split_nl cur s)) t),
      snd (split_nl (snd (split_nl cur s)) t))"
  by (induction s arbitrary: cur) auto

lemma split_nl_cur: "NL \<notin> set cur \<Longrightarrow> split_nl [] (cur @ s) = split_nl cur s"
  by (simp add: split_nl_append split_nl_no_nl)

lemma splitlines_from_plain:
  "(\<forall>c\<in>set s. is_linebreak c \<longrightarrow> c = NL) \<Longrightarrow>
   splitlines_from k cur s =
     map (\<lambda>l. l @ (if k then [NL] else [])) (fst (split_nl cur s))
     @ (if snd (split_nl cur s) = [] then [] else [snd (split_nl cur s)])"
proof (induction k cur s rule: splitlines_from.induct)
  case (1 k cur)
  then show ?case by simp
next
  case (2 k cur c)
  then show ?case by (auto simp: is_linebreak_def)
next
  case (3 k cur c d cs)
  have c: "c \<noteq> CR" using "3.prems" by (auto simp: is_linebreak_def)
  show ?case
  proof (cases "is_linebreak c")
    case True
    then have "c = NL" using "3.prems" by simp
    then show ?thesis using "3.IH"(2) "3.prems" c True by simp
  next
    case False
    then have "c \<noteq> NL" by (auto simp: is_linebreak_def)
    then show ?thesis using "3.IH"(3) "3.prems" c False by simp
  qed
qed


lemma rstrip_nl_line: "NL \<notin> set l \<Longrightarrow> rstrip_nl (l @ [NL]) = l"
  by (cases l rule: rev_cases) (simp_all add: rstrip_nl_def)


lemma complete_parts_plain:
  assumes "\<forall>c\<in>set data. is_linebreak c \<longrightarrow> c = NL"
  shows "complete_parts data =
    (map (\<lambda>l. l @ [NL]) (fst (split_nl [] data)), snd (split_nl [] data))"
proof -
  let ?L = "fst (split_nl [] data)" and ?R = "snd (split_nl [] data)"
  have sp: "splitlines True data = map (\<lambda>l. l @ [NL]) ?L @ (if ?R = [] then [] else [?R])"
    using splitlines_from_plain [OF assms, of True "[]"] by (simp add: splitlines_def)
  have r: "NL \<notin> set ?R" by (rule split_nl_rest_nl) simp
  show ?thesis
  proof (cases "?R = []")
    case True
    then have "splitlines True data = map (\<lambda>l. l @ [NL]) ?L" using sp by simp
    then show ?thesis
      using True by (cases ?L rule: rev_cases) (simp_all add: complete_parts_def endswith_nl_def)
  next
    case False
    then have "\<not> endswith_nl ?R" using r by (metis endswith_nl_def last_in_set)
    then show ?thesis
      using False sp by (simp add: complete_parts_def)
  qed
qed

lemma append_plain:
  assumes "NL \<notin> set (partial (fst s))"
    and "normalize cfg t = t"
    and "\<forall>c\<in>set (partial (fst s) @ t). is_linebreak c \<longrightarrow> c = NL"
  shows "line_contents cfg (fst s) t = fst (split_nl [] (partial (fst s) @ t))"
    and "partial (fst (snd (append cfg ts s t))) = snd (split_nl [] (partial (fst s) @ t))"
proof -
  let ?d = "partial (fst s) @ t"
  have m: "map rstrip_nl (map (\<lambda>l. l @ [NL]) (fst (split_nl [] ?d))) = fst (split_nl [] ?d)"
    unfolding map_map comp_def
    by (rule map_idI) (simp add: rstrip_nl_line split_nl_lines_nl [of "[]"])
  show "line_contents cfg (fst s) t = fst (split_nl [] ?d)"
  proof (cases "NL \<in> set ?d")
    case True
    then have "t \<noteq> []" using assms(1) by auto
    then show ?thesis
      using True assms(2) complete_parts_plain [OF assms(3)] m
      by (simp add: line_contents_def Let_def)
  next
    case False
    then show ?thesis
      using assms(2) split_nl_no_nl [of ?d "[]"] by (simp add: line_contents_def Let_def)
  qed
  show "partial (fst (snd (append cfg ts s t))) = snd (split_nl [] ?d)"
  proof (cases "NL \<in> set ?d")
    case True
    then have "t \<noteq> []" using assms(1) by auto
    then show ?thesis
      using True assms(2) complete_parts_plain [OF assms(3)]
      by (auto simp: append_def Let_def case_prod_beta)
  next
    case False
    then show ?thesis
      using assms(2) split_nl_no_nl [of ?d "[]"] by (auto simp: append_def Let_def)
  qed
qed

lemma appends_plain:
  assumes "NL \<notin> set (partial (fst s))"
    and "\<forall>c\<in>set (partial (fst s)). is_linebreak c \<longrightarrow> c = NL"
    and "\<forall>x\<in>set calls. normalize cfg (snd x) = snd x \<and>
           (\<forall>c\<in>set (snd x). is_linebreak c \<longrightarrow> c = NL)"
  shows "appends_contents cfg s calls =
           fst (split_nl [] (partial (fst s) @ concat (map snd calls))) \<and>
         partial (fst (appends_state cfg s calls)) =
           snd (split_nl [] (partial (fst s) @ concat (map snd calls)))"
  using assms
proof (induction calls arbitrary: s)
  case Nil
  then show ?case by (simp add: split_nl_no_nl)
next
  case (Cons x calls)
  obtain ts t where x: "x = (ts, t)" by (cases x)
  let ?s = "snd (append cfg ts s t)"
  let ?p = "partial (fst s)"
  have n: "normalize cfg t = t" and pl: "\<forall>c\<in>set (?p @ t). is_linebreak c \<longrightarrow> c = NL"
    using Cons.prems by (auto simp: x)
  have c: "line_contents cfg (fst s) t = fst (split_nl [] (?p @ t))"
    and p: "partial (fst ?s) = snd (split_nl [] (?p @ t))"
    using append_plain [OF Cons.prems(1) n pl] by simp_all
  have p1: "NL \<notin> set (partial (fst ?s))"
    unfolding p by (rule split_nl_rest_nl) simp
  have p2: "\<forall>c\<in>set (partial (fst ?s)). is_linebreak c \<longrightarrow> c = NL"
    unfolding p using pl split_nl_rest_set [of "[]" "?p @ t"] by auto
  have p3: "\<forall>x\<in>set calls. normalize cfg (snd x) = snd x \<and>
      (\<forall>c\<in>set (snd x). is_linebreak c \<longrightarrow> c = NL)"
    using Cons.prems(3) by simp
  note ih = Cons.IH [OF p1 p2 p3]
  have k: "split_nl (snd (split_nl [] (?p @ t))) (concat (map snd calls)) =
      split_nl [] (snd (split_nl [] (?p @ t)) @ concat (map snd calls))"
    using p1 unfolding p by (simp add: split_nl_cur)
  have j: "split_nl [] ((?p @ t) @ concat (map snd calls)) =
      (fst (split_nl [] (?p @ t)) @ fst (split_nl [] (partial (fst ?s) @ concat (map snd calls))),
       snd (split_nl [] (partial (fst ?s) @ concat (map snd calls))))"
    unfolding p k [symmetric] by (rule split_nl_append)
  show ?case
    using ih c j by (simp add: x)
qed

lemma lower_from_ascii: "\<forall>c\<in>set s. c < 128 \<Longrightarrow> lower_from before s = map lower_char s"
  by (induction s arbitrary: before) auto

lemma py_lower_ascii: "is_ascii s \<Longrightarrow> py_lower s = map lower_char s"
  by (simp add: py_lower_def is_ascii_def lower_from_ascii)

lemma sublist_ascii: "sublist s l \<Longrightarrow> is_ascii l \<Longrightarrow> is_ascii s"
  by (auto simp: sublist_def is_ascii_def)

lemma sublist_map_iff:
  "sublist (map f p) (map f l) \<longleftrightarrow> (\<exists>s. sublist s l \<and> map f s = map f p)"
proof
  assume "sublist (map f p) (map f l)"
  then obtain s where "sublist s l" "map f p = map f s"
    using sublist_map_rightE by blast
  then show "\<exists>s. sublist s l \<and> map f s = map f p" by auto
next
  assume "\<exists>s. sublist s l \<and> map f s = map f p"
  then obtain s where s: "sublist s l" "map f s = map f p" by blast
  from s(1) obtain a c where "l = a @ s @ c" by (auto simp: sublist_def)
  then have "map f l = map f a @ map f p @ map f c" using s(2) by simp
  then show "sublist (map f p) (map f l)" by (auto simp: sublist_def)
qed

lemma py_lower_match_ascii:
  assumes "is_ascii p" "is_ascii l"
  shows "sublist (py_lower p) (py_lower l) \<longleftrightarrow> (\<exists>s. sublist s l \<and> py_lower s = py_lower p)"
proof -
  have "(\<exists>s. sublist s l \<and> py_lower s = py_lower p) \<longleftrightarrow>
        (\<exists>s. sublist s l \<and> map lower_char s = map lower_char p)"
    using assms by (metis py_lower_ascii sublist_ascii)
  then show ?thesis
    using assms by (simp add: py_lower_ascii sublist_map_iff)
qed

lemma LogBuffer_fresh:
  "LogBuffer cfg mk nm = Inr b \<Longrightarrow> lines b = [] \<and> partial b = [] \<and> cache b = None"
  by (auto simp: LogBuffer_def split: if_splits)

lemmas run_defs =
  u_def splitlines_def is_linebreak_def complete_parts_def endswith_nl_def rstrip_nl_def
  append_def line_contents_def Let_def disp_line_def file_line_def deque_append_def
  spec_config_def spec_strip_ansi_def the_writer_def new_writer_def writer_write_def
  put_nowait_def full_def get_recent_def clear_def read_fresh_def line_count_def
  bot_buffer_def busy_writer_def run_def LogBuffer_def path_join_def

section \<open>Lines across chunk boundaries\<close>

text \<open>
  What holds across chunk boundaries. Take a buffer with no fragment pending and a
  series of \<open>append\<close> calls whose texts the normaliser leaves as they are and which
  hold no line boundary of \<open>splitlines\<close> but \<open>\n\<close>. Then the contents of the lines
  rendered, over all the calls, are the lines of the joined text that a \<open>\n\<close> ends, and
  the fragment kept at the end is what follows the last \<open>\n\<close>, however the text was cut
  into chunks.
\<close>

lemma append_chunking_invariance:
  assumes "partial (fst s) = []"
    and "\<forall>x\<in>set calls. normalize cfg (snd x) = snd x \<and>
           (\<forall>c\<in>set (snd x). is_linebreak c \<longrightarrow> c = NL)"
  shows "appends_contents cfg s calls = fst (split_nl [] (concat (map snd calls)))"
    and "partial (fst (appends_state cfg s calls)) = snd (split_nl [] (concat (map snd calls)))"
  using appends_plain [of s calls cfg] assms by simp_all

text \<open>
  C1. One call \<open>append("a\fb\n")\<close> on a new buffer renders two lines, with the
  contents \<open>a\f\<close> and \<open>b\<close>, where the input split on \<open>\n\<close> is the one line
  \<open>a\fb\<close>: \<open>splitlines\<close> also ends a line at a form feed. With the normaliser
  of the spec, the input \<open>a\r\nb\n\<close> gives the lines \<open>a\<close>, \<open>b\<close> in one call and
  the lines \<open>a\<close>, the empty line, \<open>b\<close> when it is cut between \<open>\r\<close> and \<open>\n\<close>.
\<close>

theorem append_splits_inside_a_line:
  "line_contents (spec_config 100 50) bot_buffer (u ''a'' @ [12] @ u ''b'' @ [NL]) =
     [u ''a'' @ [12], u ''b''] \<and>
   fst (split_nl [] (u ''a'' @ [12] @ u ''b'' @ [NL])) = [u ''a'' @ [12] @ u ''b''] \<and>
   lines (fst (snd (append (spec_config 100 50) ts (bot_buffer, None)
                      (u ''a'' @ [12] @ u ''b'' @ [NL])))) =
     [disp_line ts (u ''a'' @ [12]), disp_line ts (u ''b'')] \<and>
   appends_contents (spec_config 100 50) (bot_buffer, None)
     [(ts, u ''a'' @ [CR]), (ts, [NL] @ u ''b'' @ [NL])] = [u ''a'', [], u ''b''] \<and>
   appends_contents (spec_config 100 50) (bot_buffer, None)
     [(ts, u ''a'' @ [CR] @ [NL] @ u ''b'' @ [NL])] = [u ''a'', u ''b'']"
  by (simp add: run_defs)

section \<open>The ring buffer\<close>

text \<open>
  C3. A buffer made by \<open>LogBuffer\<close> holds at most \<open>MAX_LOG_LINES\<close> entries in its
  ring after any sequence of operations. After a series of \<open>append\<close> calls that have
  rendered \<open>MAX_LOG_LINES + k\<close> lines in all, the ring is exactly the last
  \<open>MAX_LOG_LINES\<close> of them in the order they were rendered: the \<open>k\<close> oldest are gone.
\<close>

theorem ring_bound_and_fifo_eviction:
  assumes "LogBuffer cfg mk nm = Inr b"
  shows "length (lines (fst (run lower cfg (b, g, files) ops))) \<le> MAX_LOG_LINES cfg \<and>
         (length (appends cfg (b, g) calls) = MAX_LOG_LINES cfg + k \<longrightarrow>
            lines (fst (appends_state cfg (b, g) calls)) = drop k (appends cfg (b, g) calls) \<and>
            length (lines (fst (appends_state cfg (b, g) calls))) = MAX_LOG_LINES cfg)"
proof -
  have e: "lines b = []" using assms by (simp add: LogBuffer_fresh)
  have "length (lines (fst (run lower cfg (b, g, files) ops))) \<le> MAX_LOG_LINES cfg"
    by (rule run_bound) (simp add: e)
  moreover have "lines (fst (appends_state cfg (b, g) calls)) =
      drop (length (appends cfg (b, g) calls) - MAX_LOG_LINES cfg) (appends cfg (b, g) calls)"
    using appends_lines [of "(b, g)" cfg calls] by (simp add: e)
  ultimately show ?thesis by simp
qed

theorem ring_bound_and_fifo_eviction_witness:
  "LogBuffer (spec_config 2 50) True (u ''bot'') = Inr bot_buffer \<and>
   length (appends (spec_config 2 50) (bot_buffer, None)
             [(u ''t1'', u ''a'' @ [NL] @ u ''b'' @ [NL]), (u ''t2'', u ''c'' @ [NL])]) = 2 + 1 \<and>
   lines (fst (appends_state (spec_config 2 50) (bot_buffer, None)
             [(u ''t1'', u ''a'' @ [NL] @ u ''b'' @ [NL]), (u ''t2'', u ''c'' @ [NL])])) =
     [disp_line (u ''t1'') (u ''b''), disp_line (u ''t2'') (u ''c'')] \<and>
   length (lines (fst (run py_lower (spec_config 2 50) (bot_buffer, None, Map.empty)
             [Append (u ''t1'') (u ''a'' @ [NL]), Clear False, LineCount Absent]))) \<le> 2"
proof -
  let ?cfg = "spec_config 2 50"
  let ?calls = "[(u ''t1'', u ''a'' @ [NL] @ u ''b'' @ [NL]), (u ''t2'', u ''c'' @ [NL])]"
  have h: "LogBuffer ?cfg True (u ''bot'') = Inr bot_buffer"
    by (simp add: run_defs)
  have es: "appends ?cfg (bot_buffer, None) ?calls =
      [disp_line (u ''t1'') (u ''a''), disp_line (u ''t1'') (u ''b''),
       disp_line (u ''t2'') (u ''c'')]"
    by (simp add: run_defs)
  have n: "MAX_LOG_LINES ?cfg = 2" by (simp add: spec_config_def)
  show ?thesis
    using h es n
      ring_bound_and_fifo_eviction [OF h, of py_lower None Map.empty
        "[Append (u ''t1'') (u ''a'' @ [NL]), Clear False, LineCount Absent]" ?calls 1]
    by simp
qed

section \<open>The partial fragment\<close>

text \<open>
  C8. After every sequence of operations on a buffer made by \<open>LogBuffer\<close> the
  fragment \<open>_partial\<close> holds no \<open>\n\<close>. When \<open>append\<close> gets a text whose normal form,
  put after the fragment, holds no \<open>\n\<close>, that whole text becomes the fragment and the
  call returns two empty strings, the rest of the state being as it was; an empty text
  changes nothing and returns two empty strings.
\<close>

theorem partial_holds_no_newline:
  assumes "LogBuffer cfg mk nm = Inr b"
  shows "NL \<notin> set (partial (fst (run lower cfg (b, g, files) ops))) \<and>
         (t \<noteq> [] \<and> NL \<notin> set (partial b' @ normalize cfg t) \<longrightarrow>
            append cfg ts (b', g') t =
              (([], []), (b'\<lparr>partial := partial b' @ normalize cfg t\<rparr>, g'))) \<and>
         append cfg ts (b', g') [] = (([], []), (b', g'))"
proof -
  have "NL \<notin> set (partial (fst (run lower cfg (b, g, files) ops)))"
    by (rule run_partial) (use assms in \<open>simp add: LogBuffer_fresh\<close>)
  then show ?thesis by (simp add: append_def Let_def)
qed

theorem partial_holds_no_newline_witness:
  "LogBuffer (spec_config 2 50) True (u ''bot'') = Inr bot_buffer \<and>
   NL \<notin> set (partial (fst (run py_lower (spec_config 2 50) (bot_buffer, None, Map.empty)
             [Append (u ''t1'') (u ''a'' @ [NL] @ u ''bc''), Clear True]))) \<and>
   u ''de'' \<noteq> [] \<and>
   NL \<notin> set (partial (bot_buffer\<lparr>partial := u ''bc''\<rparr>) @ normalize (spec_config 2 50) (u ''de'')) \<and>
   append (spec_config 2 50) (u ''t2'') (bot_buffer\<lparr>partial := u ''bc''\<rparr>, None) (u ''de'') =
     (([], []), (bot_buffer\<lparr>partial := u ''bcde''\<rparr>, None))"
proof -
  have h: "LogBuffer (spec_config 2 50) True (u ''bot'') = Inr bot_buffer"
    by (simp add: run_defs)
  have p: "u ''de'' \<noteq> [] \<and>
      NL \<notin> set (partial (bot_buffer\<lparr>partial := u ''bc''\<rparr>) @ normalize (spec_config 2 50) (u ''de''))"
    by (simp add: run_defs)
  have q: "partial (bot_buffer\<lparr>partial := u ''bc''\<rparr>) @ normalize (spec_config 2 50) (u ''de'') =
      u ''bcde''"
    by (simp add: run_defs)
  show ?thesis
    using h p
      partial_holds_no_newline [OF h, of py_lower None Map.empty
        "[Append (u ''t1'') (u ''a'' @ [NL] @ u ''bc''), Clear True]" "u ''de''"
        "bot_buffer\<lparr>partial := u ''bc''\<rparr>" "u ''t2''" None]
    by (simp only: q) simp
qed

section \<open>The file writer\<close>

text \<open>
  C4, as amended. \<open>write(path, text)\<close> returns without raising for every state of
  the queue. For a text that is not empty, the job is left out and the drop counter goes
  up by one exactly when the queue is at capacity; otherwise the job goes to the end of
  the queue and the counter stays. An empty text returns at once: nothing is queued and
  nothing is counted, whatever the state of the queue.
\<close>

theorem write_returns_and_counts_drops:
  "(\<exists>w'. writer_write w p t = Inr w') \<and>
   (t \<noteq> [] \<longrightarrow>
      writer_write w p t =
        Inr (if full w then w\<lparr>dropped := dropped w + 1\<rparr> else w\<lparr>queue := queue w @ [(p, t)]\<rparr>)) \<and>
   writer_write w p [] = Inr w"
  by (simp add: writer_write_def put_nowait_def)

theorem write_returns_and_counts_drops_witness:
  "u ''a'' @ [NL] \<noteq> [] \<and>
   writer_write busy_writer (u ''logs/a.log'') (u ''a'' @ [NL]) = Inr (busy_writer\<lparr>dropped := 1\<rparr>) \<and>
   writer_write (new_writer 10000) (u ''logs/a.log'') (u ''a'' @ [NL]) =
     Inr ((new_writer 10000)\<lparr>queue := [(u ''logs/a.log'', u ''a'' @ [NL])]\<rparr>)"
proof -
  have n: "u ''a'' @ [NL] \<noteq> []" by simp
  have f: "full busy_writer" "\<not> full (new_writer 10000)" "dropped busy_writer = 0"
    "queue (new_writer 10000) = []"
    by (simp_all add: full_def busy_writer_def new_writer_def)
  show ?thesis
    using n f
      write_returns_and_counts_drops [of busy_writer "u ''logs/a.log''" "u ''a'' @ [NL]"]
      write_returns_and_counts_drops [of "new_writer 10000" "u ''logs/a.log''" "u ''a'' @ [NL]"]
    by simp
qed

text \<open>
  C4 as stated fails for the empty text: with the queue at capacity, \<open>write(path, "")\<close>
  leaves the drop counter as it was.
\<close>

theorem write_empty_text_full_queue:
  "full busy_writer \<and>
   writer_write busy_writer (u ''logs/a.log'') [] = Inr busy_writer \<and>
   writer_write busy_writer (u ''logs/a.log'') [] \<noteq>
     Inr (busy_writer\<lparr>dropped := dropped busy_writer + 1\<rparr>)"
  by (simp add: writer_write_def full_def busy_writer_def)

text \<open>
  C2, as amended. The writer has one drop counter for all destinations. When it is
  \<open>d > 0\<close> and the worker takes a job \<open>(p, t)\<close> that it writes in full, the worker
  resets the counter to zero and appends one line noting \<open>d\<close> to \<open>p\<close>, the file of
  that job, after \<open>t\<close>; when the write of the note itself fails the note is missing
  or cut short, and the counter is reset all the same. A job whose write fails leaves
  the counter as it was and is taken off the queue.
\<close>

theorem drop_note_follows_next_written_job:
  "queue w = (p, t) # rest \<and> dropped w = d \<and> 0 < d \<longrightarrow>
     run_step Done Done (w, files) =
       (w\<lparr>queue := rest, dropped := 0\<rparr>, files(p \<mapsto> content files p @ t @ drop_note d)) \<and>
     run_step Done CannotOpen (w, files) =
       (w\<lparr>queue := rest, dropped := 0\<rparr>, files(p \<mapsto> content files p @ t)) \<and>
     run_step Done (Broken n) (w, files) =
       (w\<lparr>queue := rest, dropped := 0\<rparr>,
        files(p \<mapsto> content files p @ t @ take n (drop_note d))) \<and>
     run_step CannotOpen r2 (w, files) = (w\<lparr>queue := rest\<rparr>, files) \<and>
     run_step (Broken n) r2 (w, files) =
       (w\<lparr>queue := rest\<rparr>, files(p \<mapsto> content files p @ take n t))"
  by (auto simp: append_file_def content_def Let_def)

theorem drop_note_follows_next_written_job_witness:
  "queue (busy_writer\<lparr>dropped := 3\<rparr>) = (u ''logs/b.log'', u ''b'' @ [NL]) # [] \<and>
   dropped (busy_writer\<lparr>dropped := 3\<rparr>) = 3 \<and> (0::nat) < 3 \<and>
   run_step Done Done (busy_writer\<lparr>dropped := 3\<rparr>, Map.empty) =
     (busy_writer\<lparr>queue := [], dropped := 0\<rparr>,
      [u ''logs/b.log'' \<mapsto>
         u ''b'' @ [NL] @ u ''[log-writer] dropped 3 chunks due to backpressure'' @ [NL]]) \<and>
   run_step (Broken 0) Done (busy_writer\<lparr>dropped := 3\<rparr>, Map.empty) =
     (busy_writer\<lparr>queue := [], dropped := 3\<rparr>, [u ''logs/b.log'' \<mapsto> []])"
proof -
  have h: "queue (busy_writer\<lparr>dropped := 3\<rparr>) = (u ''logs/b.log'', u ''b'' @ [NL]) # [] \<and>
      dropped (busy_writer\<lparr>dropped := 3\<rparr>) = 3 \<and> (0::nat) < 3"
    by (simp add: busy_writer_def)
  have n: "drop_note 3 = u ''[log-writer] dropped 3 chunks due to backpressure'' @ [NL]"
    by (simp add: drop_note_def str_nat.simps u_def)
  have c: "content Map.empty (u ''logs/b.log'') = []" by (simp add: content_def)
  show ?thesis
    using h n c
      drop_note_follows_next_written_job [of "busy_writer\<lparr>dropped := 3\<rparr>" "u ''logs/b.log''"
        "u ''b'' @ [NL]" "[]" 3 Map.empty 0 Done]
    by (simp add: append_file_def content_def)
qed

text \<open>
  C2 as stated fails: a job for \<open>logs/a.log\<close> is dropped while a job for
  \<open>logs/b.log\<close> waits in the full queue. The worker then writes the waiting job and
  puts the note into \<open>logs/b.log\<close>; the next write to \<open>logs/a.log\<close> succeeds and
  that file gets no note.
\<close>

theorem drop_note_lands_in_other_file:
  "writer_write busy_writer (u ''logs/a.log'') (u ''a'' @ [NL]) = Inr (busy_writer\<lparr>dropped := 1\<rparr>) \<and>
   run_step Done Done (busy_writer\<lparr>dropped := 1\<rparr>, Map.empty) =
     (busy_writer\<lparr>queue := [], dropped := 0\<rparr>,
      [u ''logs/b.log'' \<mapsto> u ''b'' @ [NL] @ drop_note 1]) \<and>
   writer_write (busy_writer\<lparr>queue := [], dropped := 0\<rparr>) (u ''logs/a.log'') (u ''a2'' @ [NL]) =
     Inr (busy_writer\<lparr>queue := [(u ''logs/a.log'', u ''a2'' @ [NL])], dropped := 0\<rparr>) \<and>
   run_step Done Done
     (busy_writer\<lparr>queue := [(u ''logs/a.log'', u ''a2'' @ [NL])], dropped := 0\<rparr>,
      [u ''logs/b.log'' \<mapsto> u ''b'' @ [NL] @ drop_note 1]) =
     (busy_writer\<lparr>queue := [], dropped := 0\<rparr>,
      [u ''logs/b.log'' \<mapsto> u ''b'' @ [NL] @ drop_note 1,
       u ''logs/a.log'' \<mapsto> u ''a2'' @ [NL]])"
  by (simp add: writer_write_def put_nowait_def full_def busy_writer_def append_file_def
        content_def Let_def u_def)

section \<open>Reading the history in chunks\<close>

text \<open>
  C5, as amended. Let the history have \<open>n\<close> lines. For \<open>0 < end\<close>, \<open>0 < size\<close>
  and \<open>max(0, end - size) < n\<close>, \<open>load_chunk(end, size)\<close> returns the lines with
  indices \<open>max(0, end - size)\<close> to \<open>min(end, n) - 1\<close>, each recoloured and ended
  by \<open>\n\<close>, and \<open>new_start = max(0, end - size)\<close>. It returns the empty text and 0
  when \<open>end \<le> 0\<close> or there is no line. On a history of 10 lines
  \<open>load_chunk(10, 5)\<close> returns the lines 5 to 9 and \<open>new_start = 5\<close>.
\<close>

theorem load_chunk_pagination:
  "read_file cfg b obs = Inr (ls, b') \<longrightarrow>
   (0 < end' \<and> 0 < size' \<and> max 0 (end' - size') < int (length ls) \<longrightarrow>
      load_chunk cfg b obs end' size' =
        Inr ((render (map (\<lambda>i. ls ! i)
                      [nat (max 0 (end' - size')) ..< nat (min end' (int (length ls)))]),
              max 0 (end' - size')), b')) \<and>
   (end' \<le> 0 \<or> ls = [] \<longrightarrow> load_chunk cfg b obs end' size' = Inr (([], 0), b')) \<and>
   (length ls = 10 \<longrightarrow>
      load_chunk cfg b obs 10 5 =
        Inr ((render [ls ! 5, ls ! 6, ls ! 7, ls ! 8, ls ! 9], 5), b'))"
proof -
  have u: "[5 ..< 10] = [5, 6, 7, 8, 9::nat]"
    by (simp add: upt_rec)
  have "length ls = 10 \<Longrightarrow> load_chunk_lines ls 10 5 =
      (render [ls ! 5, ls ! 6, ls ! 7, ls ! 8, ls ! 9], 5)" for ls :: "ustr list"
    using load_chunk_lines_inside [of 10 5 ls] by (simp add: u)
  moreover have "ls = [] \<or> end' \<le> 0 \<Longrightarrow> load_chunk_lines ls end' size' = ([], 0)" for ls
    by (auto simp: load_chunk_lines_def)
  ultimately show ?thesis
    by (auto simp: load_chunk_def load_chunk_lines_inside)
qed

theorem load_chunk_pagination_witness:
  "read_file (spec_config 100 50) bot_buffer
     (Present (Some 1)
            (Some (u ''l0'' @ [NL] @ u ''l1'' @ [NL] @ u ''l2'' @ [NL] @ u ''l3'' @ [NL] @ u ''l4'' @ [NL]
                 @ u ''l5'' @ [NL] @ u ''l6'' @ [NL] @ u ''l7'' @ [NL] @ u ''l8'' @ [NL] @ u ''l9'' @ [NL]))) =
     Inr ([u ''l0'', u ''l1'', u ''l2'', u ''l3'', u ''l4'', u ''l5'', u ''l6'', u ''l7'', u ''l8'', u ''l9''],
          bot_buffer\<lparr>cache := Some [u ''l0'', u ''l1'', u ''l2'', u ''l3'', u ''l4'', u ''l5'', u ''l6'', u ''l7'', u ''l8'', u ''l9''], mtime := 1\<rparr>) \<and>
   0 < (3::int) \<and> 0 < (2::int) \<and>
   max 0 (3 - 2) < int (length [u ''l0'', u ''l1'', u ''l2'', u ''l3'', u ''l4'', u ''l5'', u ''l6'', u ''l7'', u ''l8'', u ''l9'']) \<and>
   load_chunk (spec_config 100 50) bot_buffer
     (Present (Some 1)
            (Some (u ''l0'' @ [NL] @ u ''l1'' @ [NL] @ u ''l2'' @ [NL] @ u ''l3'' @ [NL] @ u ''l4'' @ [NL]
                 @ u ''l5'' @ [NL] @ u ''l6'' @ [NL] @ u ''l7'' @ [NL] @ u ''l8'' @ [NL] @ u ''l9'' @ [NL]))) 3 2 =
     Inr ((u ''l1'' @ [NL] @ u ''l2'' @ [NL], 1),
          bot_buffer\<lparr>cache := Some [u ''l0'', u ''l1'', u ''l2'', u ''l3'', u ''l4'', u ''l5'', u ''l6'', u ''l7'', u ''l8'', u ''l9''], mtime := 1\<rparr>) \<and>
   load_chunk (spec_config 100 50) bot_buffer
     (Present (Some 1)
            (Some (u ''l0'' @ [NL] @ u ''l1'' @ [NL] @ u ''l2'' @ [NL] @ u ''l3'' @ [NL] @ u ''l4'' @ [NL]
                 @ u ''l5'' @ [NL] @ u ''l6'' @ [NL] @ u ''l7'' @ [NL] @ u ''l8'' @ [NL] @ u ''l9'' @ [NL]))) 0 2 =
     Inr (([], 0), bot_buffer\<lparr>cache := Some [u ''l0'', u ''l1'', u ''l2'', u ''l3'', u ''l4'', u ''l5'', u ''l6'', u ''l7'', u ''l8'', u ''l9''], mtime := 1\<rparr>) \<and>
   load_chunk (spec_config 100 50) bot_buffer
     (Present (Some 1)
            (Some (u ''l0'' @ [NL] @ u ''l1'' @ [NL] @ u ''l2'' @ [NL] @ u ''l3'' @ [NL] @ u ''l4'' @ [NL]
                 @ u ''l5'' @ [NL] @ u ''l6'' @ [NL] @ u ''l7'' @ [NL] @ u ''l8'' @ [NL] @ u ''l9'' @ [NL]))) 10 5 =
     Inr ((u ''l5'' @ [NL] @ u ''l6'' @ [NL] @ u ''l7'' @ [NL] @ u ''l8'' @ [NL] @ u ''l9'' @ [NL], 5),
          bot_buffer\<lparr>cache := Some [u ''l0'', u ''l1'', u ''l2'', u ''l3'', u ''l4'', u ''l5'', u ''l6'', u ''l7'', u ''l8'', u ''l9''], mtime := 1\<rparr>)"
proof -
  let ?obs = "(Present (Some 1)
            (Some (u ''l0'' @ [NL] @ u ''l1'' @ [NL] @ u ''l2'' @ [NL] @ u ''l3'' @ [NL] @ u ''l4'' @ [NL]
                 @ u ''l5'' @ [NL] @ u ''l6'' @ [NL] @ u ''l7'' @ [NL] @ u ''l8'' @ [NL] @ u ''l9'' @ [NL])))"
  let ?ls = "[u ''l0'', u ''l1'', u ''l2'', u ''l3'', u ''l4'', u ''l5'', u ''l6'', u ''l7'', u ''l8'', u ''l9'']"
  let ?b = "bot_buffer\<lparr>cache := Some ?ls, mtime := 1\<rparr>"
  have r: "read_file (spec_config 100 50) bot_buffer ?obs = Inr (?ls, ?b)"
    by (simp add: run_defs)
  have c: "render [u ''l1'', u ''l2''] = u ''l1'' @ [NL] @ u ''l2'' @ [NL]"
    "render [u ''l5'', u ''l6'', u ''l7'', u ''l8'', u ''l9''] =
       u ''l5'' @ [NL] @ u ''l6'' @ [NL] @ u ''l7'' @ [NL] @ u ''l8'' @ [NL] @ u ''l9'' @ [NL]"
    by (simp_all add: render_def colorize_def u_def)
  have i: "[Suc 0 ..< 3] = [1, 2]" by (simp add: upt_rec)
  note t = load_chunk_pagination [of "spec_config 100 50" bot_buffer ?obs ?ls ?b]
  have s1: "load_chunk (spec_config 100 50) bot_buffer ?obs 3 2 =
      Inr ((u ''l1'' @ [NL] @ u ''l2'' @ [NL], 1), ?b)"
    using t [of 3 2] r c i by simp
  have s2: "load_chunk (spec_config 100 50) bot_buffer ?obs 0 2 = Inr (([], 0), ?b)"
    using t [of 0 2] r by simp
  have s3: "load_chunk (spec_config 100 50) bot_buffer ?obs 10 5 =
      Inr ((u ''l5'' @ [NL] @ u ''l6'' @ [NL] @ u ''l7'' @ [NL] @ u ''l8'' @ [NL] @ u ''l9'' @ [NL], 5),
           ?b)"
    using t [of 10 5] r c by simp
  show ?thesis
    using r s1 s2 s3 by simp
qed

text \<open>
  C5 as stated fails when \<open>max(0, end - size)\<close> is not below the number of lines:
  on a history of 3 lines \<open>load_chunk(10, 5)\<close> returns the empty text and
  \<open>new_start = 0\<close>, not \<open>max(0, 10 - 5) = 5\<close>.
\<close>

theorem load_chunk_start_beyond_history:
  "load_chunk (spec_config 100 50) bot_buffer
     (Present (Some 1) (Some (u ''a'' @ [NL] @ u ''b'' @ [NL] @ u ''c'' @ [NL]))) 10 5 =
     Inr (([], 0), bot_buffer\<lparr>cache := Some [u ''a'', u ''b'', u ''c''], mtime := 1\<rparr>) \<and>
   (0::int) \<noteq> max 0 (10 - 5)"
  by (simp add: run_defs load_chunk_def load_chunk_lines_def py_slice_def)

text \<open>
  C10. For a history of \<open>n\<close> lines and a request with \<open>max(0, end - size) \<ge> n\<close>,
  \<open>load_chunk(end, size)\<close> returns the empty text and \<open>new_start = 0\<close>.
\<close>

theorem load_chunk_empty_beyond_history:
  "read_file cfg b obs = Inr (ls, b') \<and> int (length ls) \<le> max 0 (end' - size') \<longrightarrow>
   load_chunk cfg b obs end' size' = Inr (([], 0), b')"
  by (auto simp: load_chunk_def load_chunk_lines_outside)

theorem load_chunk_empty_beyond_history_witness:
  "read_file (spec_config 100 50)
     (bot_buffer\<lparr>lines := [u ''x'' @ [NL], u ''y'' @ [NL]]\<rparr>) Absent =
     Inr ([u ''x'', u ''y''], bot_buffer\<lparr>lines := [u ''x'' @ [NL], u ''y'' @ [NL]]\<rparr>) \<and>
   int (length [u ''x'', u ''y'']) \<le> max 0 (7 - 2) \<and>
   load_chunk (spec_config 100 50)
     (bot_buffer\<lparr>lines := [u ''x'' @ [NL], u ''y'' @ [NL]]\<rparr>) Absent 7 2 =
     Inr (([], 0), bot_buffer\<lparr>lines := [u ''x'' @ [NL], u ''y'' @ [NL]]\<rparr>)"
proof -
  let ?b = "bot_buffer\<lparr>lines := [u ''x'' @ [NL], u ''y'' @ [NL]]\<rparr>"
  have r: "read_file (spec_config 100 50) ?b Absent = Inr ([u ''x'', u ''y''], ?b)"
    by (simp add: run_defs ring_lines_def)
  have l: "int (length [u ''x'', u ''y'']) \<le> max 0 (7 - 2)" by simp
  show ?thesis
    using r l
      load_chunk_empty_beyond_history [of "spec_config 100 50" ?b Absent "[u ''x'', u ''y'']" ?b 7 2]
    by simp
qed

section \<open>Searching the history\<close>

text \<open>
  C6, as amended. For every pattern and every history, \<open>search(pattern)\<close> returns the
  lines \<open>l\<close> for which the lowercased pattern occurs in the lowercased \<open>l\<close> as a
  contiguous run, in their order, each recoloured and ended by \<open>\n\<close>, with the number
  of these lines; this holds whatever function the lowercasing is. The empty pattern
  matches every line. When the pattern and the lines are ASCII text, these are the
  lines that hold a run of characters equal to the pattern up to case. On the lines
  \<open>INFO start\<close>, \<open>ERROR boom\<close>, \<open>info ok\<close>, \<open>search("error")\<close> returns the one
  line \<open>ERROR boom\<close>.
\<close>

theorem search_returns_matching_lines:
  "read_file cfg b obs = Inr (ls, b') \<longrightarrow>
   search lower cfg b obs pattern =
     Inr ((render (filter (\<lambda>l. sublist (lower pattern) (lower l)) ls),
           length (filter (\<lambda>l. sublist (lower pattern) (lower l)) ls)), b') \<and>
   (lower [] = [] \<longrightarrow> search lower cfg b obs [] = Inr ((render ls, length ls), b')) \<and>
   (is_ascii pattern \<and> (\<forall>l\<in>set ls. is_ascii l) \<longrightarrow>
      search py_lower cfg b obs pattern =
        Inr ((render (filter (\<lambda>l. \<exists>s. sublist s l \<and> py_lower s = py_lower pattern) ls),
              length (filter (\<lambda>l. \<exists>s. sublist s l \<and> py_lower s = py_lower pattern) ls)), b')) \<and>
   (ls = [u ''INFO start'', u ''ERROR boom'', u ''info ok''] \<longrightarrow>
      search py_lower cfg b obs (u ''error'') = Inr ((u ''ERROR boom'' @ [NL], 1), b'))"
proof -
  have g: "search_lines lw xs p =
      (render (filter (\<lambda>l. sublist (lw p) (lw l)) xs),
       length (filter (\<lambda>l. sublist (lw p) (lw l)) xs))" for lw xs p
    by (simp add: search_lines_def Let_def py_in_sublist render_def)
  have a: "is_ascii pattern \<Longrightarrow> \<forall>l\<in>set ls. is_ascii l \<Longrightarrow>
      filter (\<lambda>l. sublist (py_lower pattern) (py_lower l)) ls =
      filter (\<lambda>l. \<exists>s. sublist s l \<and> py_lower s = py_lower pattern) ls"
    by (rule filter_cong) (simp_all add: py_lower_match_ascii)
  have e: "search_lines py_lower [u ''INFO start'', u ''ERROR boom'', u ''info ok''] (u ''error'') =
      (u ''ERROR boom'' @ [NL], 1)"
    by (simp add: search_lines_def Let_def py_lower_def lower_char_def u_def render_def
          colorize_def)
  show ?thesis
    using e a by (auto simp: search_def g simp del: filter_filter)
qed

theorem search_returns_matching_lines_witness:
  "read_file (spec_config 100 50) bot_buffer
     (Present (Some 1)
        (Some (u ''INFO start'' @ [NL] @ u ''ERROR boom'' @ [NL] @ u ''info ok'' @ [NL]))) =
     Inr ([u ''INFO start'', u ''ERROR boom'', u ''info ok''],
          bot_buffer\<lparr>cache := Some [u ''INFO start'', u ''ERROR boom'', u ''info ok''],
                      mtime := 1\<rparr>) \<and>
   py_lower [] = [] \<and>
   is_ascii (u ''error'') \<and>
   list_all is_ascii [u ''INFO start'', u ''ERROR boom'', u ''info ok''] \<and>
   search py_lower (spec_config 100 50) bot_buffer
     (Present (Some 1)
        (Some (u ''INFO start'' @ [NL] @ u ''ERROR boom'' @ [NL] @ u ''info ok'' @ [NL]))) (u ''error'') =
     Inr ((u ''ERROR boom'' @ [NL], 1),
          bot_buffer\<lparr>cache := Some [u ''INFO start'', u ''ERROR boom'', u ''info ok''],
                      mtime := 1\<rparr>) \<and>
   search py_lower (spec_config 100 50) bot_buffer
     (Present (Some 1)
        (Some (u ''INFO start'' @ [NL] @ u ''ERROR boom'' @ [NL] @ u ''info ok'' @ [NL]))) [] =
     Inr ((u ''INFO start'' @ [NL] @ u ''ERROR boom'' @ [NL] @ u ''info ok'' @ [NL], 3),
          bot_buffer\<lparr>cache := Some [u ''INFO start'', u ''ERROR boom'', u ''info ok''],
                      mtime := 1\<rparr>)"
proof -
  let ?obs = "(Present (Some 1)
        (Some (u ''INFO start'' @ [NL] @ u ''ERROR boom'' @ [NL] @ u ''info ok'' @ [NL])))"
  let ?ls = "[u ''INFO start'', u ''ERROR boom'', u ''info ok'']"
  let ?b = "bot_buffer\<lparr>cache := Some ?ls, mtime := 1\<rparr>"
  have r: "read_file (spec_config 100 50) bot_buffer ?obs = Inr (?ls, ?b)"
    by (simp add: run_defs)
  have l: "py_lower [] = []" by (simp add: py_lower_def)
  have a: "is_ascii (u ''error'')" "list_all is_ascii ?ls"
    by (simp_all add: is_ascii_def u_def)
  have c: "render ?ls = u ''INFO start'' @ [NL] @ u ''ERROR boom'' @ [NL] @ u ''info ok'' @ [NL]"
    by (simp add: render_def colorize_def u_def)
  note t = search_returns_matching_lines [of "spec_config 100 50" bot_buffer ?obs ?ls ?b]
  have s1: "search py_lower (spec_config 100 50) bot_buffer ?obs (u ''error'') =
      Inr ((u ''ERROR boom'' @ [NL], 1), ?b)"
    using t [of py_lower "u ''error''"] r by blast
  have s2: "search py_lower (spec_config 100 50) bot_buffer ?obs [] =
      Inr ((render ?ls, length ?ls), ?b)"
    using t [of py_lower "[]"] r l by blast
  show ?thesis
    using r l a s1 s2 c by simp
qed

text \<open>
  C6 as stated fails beyond ASCII. The line is a capital alpha followed by a capital
  sigma (U+0391, U+03A3) and the pattern is the capital sigma: the line holds the pattern
  itself, but the line lowercases to U+03B1, U+03C2 (a final sigma) and the pattern to
  U+03C3, so \<open>search\<close> returns no line.
\<close>

theorem search_misses_final_sigma:
  "sublist [931::nat] [913, 931] \<and>
   py_lower [913, 931] = [945, 962] \<and>
   py_lower [931] = [963] \<and>
   search py_lower (spec_config 100 50) bot_buffer
     (Present (Some 1) (Some [913, 931, NL])) [931] =
     Inr (([], 0), bot_buffer\<lparr>cache := Some [[913, 931]], mtime := 1\<rparr>)"
proof -
  have "sublist [931::nat] ([913] @ [931] @ [])" by (rule sublist_appendI)
  then show ?thesis
    by (simp add: run_defs search_def search_lines_def py_lower_def lower_char_def
          final_sigma_def case_ignorable_def cased_def)
qed

section \<open>Counting the lines\<close>




section \<open>Clearing the buffer\<close>

text \<open>
  C9, as amended. \<open>clear()\<close> empties the ring and drops the cache whether the
  truncation of the file succeeds or fails, and it leaves a pending fragment as it is.
  So when no fragment is pending at the \<open>clear()\<close> (the ring having room for a line
  and the normaliser leaving \<open>"x\n"\<close> as it is), \<open>clear()\<close> followed by
  \<open>append("x\n")\<close> leaves \<open>get_recent()\<close> returning the one rendered line for \<open>x\<close>
  and nothing else.
\<close>

theorem clear_then_append_one_line:
  "lines (fst (clear ok (b, files))) = [] \<and>
   cache (fst (clear ok (b, files))) = None \<and>
   partial (fst (clear ok (b, files))) = partial b \<and>
   (partial b = [] \<and> 0 < MAX_LOG_LINES cfg \<and>
    normalize cfg (u ''x'' @ [NL]) = u ''x'' @ [NL] \<longrightarrow>
      get_recent (fst (snd (append cfg ts (fst (clear ok (b, files)), g) (u ''x'' @ [NL])))) =
        disp_line ts (u ''x''))"
proof -
  have c: "complete_parts (u ''x'' @ [NL]) = ([u ''x'' @ [NL]], [])"
    by (simp add: complete_parts_def splitlines_def is_linebreak_def endswith_nl_def u_def)
  have r: "rstrip_nl (u ''x'' @ [NL]) = u ''x''"
    by (simp add: rstrip_nl_def u_def)
  have d: "0 < n \<Longrightarrow> deque_append n [] (x::ustr) = [x]" for n x
    by (simp add: deque_append_def)
  show ?thesis
    by (simp add: clear_def Let_def append_def get_recent_def c r d)
qed

theorem clear_then_append_one_line_witness:
  "partial (bot_buffer\<lparr>lines := [disp_line (u ''t1'') (u ''old'')]\<rparr>) = [] \<and>
   0 < MAX_LOG_LINES (spec_config 100 50) \<and>
   normalize (spec_config 100 50) (u ''x'' @ [NL]) = u ''x'' @ [NL] \<and>
   get_recent (fst (snd (append (spec_config 100 50) (u ''t2'')
       (fst (clear False (bot_buffer\<lparr>lines := [disp_line (u ''t1'') (u ''old'')]\<rparr>, Map.empty)),
        None)
       (u ''x'' @ [NL])))) = disp_line (u ''t2'') (u ''x'')"
proof -
  have h: "partial (bot_buffer\<lparr>lines := [disp_line (u ''t1'') (u ''old'')]\<rparr>) = [] \<and>
      0 < MAX_LOG_LINES (spec_config 100 50) \<and>
      normalize (spec_config 100 50) (u ''x'' @ [NL]) = u ''x'' @ [NL]"
    by (simp add: bot_buffer_def spec_config_def u_def)
  show ?thesis
    using h
      clear_then_append_one_line [of False
        "bot_buffer\<lparr>lines := [disp_line (u ''t1'') (u ''old'')]\<rparr>" Map.empty
        "spec_config 100 50" "u ''t2''" None]
    by blast
qed

text \<open>
  C9 as stated fails when a fragment is pending: after \<open>append("abc")\<close>, \<open>clear()\<close>
  and \<open>append("x\n")\<close>, \<open>get_recent()\<close> is one rendered line whose content is
  \<open>abcx\<close>, not \<open>x\<close>. It also fails for a ring of no capacity, which keeps no line.
\<close>

theorem clear_keeps_pending_fragment:
  "partial (fst (snd (append (spec_config 100 50) (u ''t1'') (bot_buffer, None) (u ''abc'')))) =
     u ''abc'' \<and>
   get_recent (fst (snd (append (spec_config 100 50) (u ''t2'')
       (fst (clear False
              (fst (snd (append (spec_config 100 50) (u ''t1'') (bot_buffer, None) (u ''abc''))),
               Map.empty)),
        None)
       (u ''x'' @ [NL])))) = disp_line (u ''t2'') (u ''abcx'') \<and>
   disp_line (u ''t2'') (u ''abcx'') \<noteq> disp_line (u ''t2'') (u ''x'') \<and>
   get_recent (fst (snd (append (spec_config 0 50) (u ''t2'')
       (fst (clear False (bot_buffer, Map.empty)), None) (u ''x'' @ [NL])))) = []"
  by (simp add: run_defs)

end
